theory Spec2Isabelle
  imports Main "HOL-Library.Sublist"
begin

section \<open>Python strings\<close>

text \<open>
  A Python \<open>str\<close> is a sequence of code points. It is modelled as a \<open>string\<close> whose
  characters stand for the code points 0 to 255 (Latin-1): on this range
  \<open>str.lower\<close> maps character by character and stays inside the range, so the library
  functions the module calls are closed on it. \<open>None\<close> is the absent string of an
  \<open>Optional[str]\<close>.
\<close>

definition isspace :: "char \<Rightarrow> bool" where
  \<comment> \<open>\<open>str.isspace\<close> of one character; the class \<open>\s\<close> of \<open>re\<close> is the same set.\<close>
  "isspace c =
     (let n = (of_char c :: nat)
      in (9 \<le> n \<and> n \<le> 13) \<or> (28 \<le> n \<and> n \<le> 32) \<or> n = 133 \<or> n = 160)"

definition lower_char :: "char \<Rightarrow> char" where
  "lower_char c =
     (let n = (of_char c :: nat)
      in if (65 \<le> n \<and> n \<le> 90) \<or> (192 \<le> n \<and> n \<le> 222 \<and> n \<noteq> 215)
         then char_of (n + 32) else c)"

definition is_word_char :: "char \<Rightarrow> bool" where
  \<comment> \<open>The class \<open>\w\<close> of \<open>re\<close> on a \<open>str\<close> pattern: alphanumeric or underscore.\<close>
  "is_word_char c =
     (let n = (of_char c :: nat)
      in (48 \<le> n \<and> n \<le> 57) \<or> (65 \<le> n \<and> n \<le> 90) \<or> n = 95 \<or> (97 \<le> n \<and> n \<le> 122)
         \<or> n = 170 \<or> n = 178 \<or> n = 179 \<or> n = 181 \<or> n = 185 \<or> n = 186
         \<or> (188 \<le> n \<and> n \<le> 190) \<or> (192 \<le> n \<and> n \<le> 214) \<or> (216 \<le> n \<and> n \<le> 246)
         \<or> (248 \<le> n \<and> n \<le> 255))"

definition strip :: "string \<Rightarrow> string" where
  \<comment> \<open>\<open>s.strip()\<close>\<close>
  "strip s = rev (dropWhile isspace (rev (dropWhile isspace s)))"

definition lower :: "string \<Rightarrow> string" where
  \<comment> \<open>\<open>s.lower()\<close>\<close>
  "lower s = map lower_char s"

function sub_spaces :: "string \<Rightarrow> string" where
  \<comment> \<open>\<open>re.sub(r"\s+", " ", s)\<close>: every maximal run of whitespace becomes one space.\<close>
  "sub_spaces [] = []"
| "sub_spaces (c # cs) =
     (if isspace c then CHR '' '' # sub_spaces (dropWhile isspace cs)
      else c # sub_spaces cs)"
  by pat_completeness auto
termination
  by (relation "measure length") (auto simp: less_Suc_eq_le length_dropWhile_le)

function split_ws :: "string \<Rightarrow> string list" where
  \<comment> \<open>\<open>s.split()\<close>: the maximal runs of non-whitespace, in order.\<close>
  "split_ws [] = []"
| "split_ws (c # cs) =
     (if isspace c then split_ws cs
      else takeWhile (\<lambda>d. \<not> isspace d) (c # cs) # split_ws (dropWhile (\<lambda>d. \<not> isspace d) cs))"
  by pat_completeness auto
termination
  by (relation "measure length") (auto simp: less_Suc_eq_le length_dropWhile_le)

fun substr_in :: "string \<Rightarrow> string \<Rightarrow> bool" where
  \<comment> \<open>\<open>w in t\<close> on two strings: \<open>w\<close> occurs in \<open>t\<close> as a contiguous substring.\<close>
  "substr_in w [] = (w = [])"
| "substr_in w (c # cs) = (prefix w (c # cs) \<or> substr_in w cs)"

definition or_empty :: "string option \<Rightarrow> string" where
  \<comment> \<open>\<open>x or ""\<close>\<close>
  "or_empty x = (case x of None \<Rightarrow> [] | Some s \<Rightarrow> s)"

section \<open>Normalization\<close>

definition normalize_text :: "string option \<Rightarrow> string" where
  "normalize_text text = sub_spaces (lower (strip (or_empty text)))"

section \<open>Configuration, environment and candidates\<close>

text \<open>
  The fields of \<open>Settings\<close> that the module reads. Only \<open>wake_word\<close> is interpreted
  (\<open>None\<close> when the attribute is missing or \<open>None\<close>); the other fields are forwarded
  to the speech-to-text collaborator as they are, so their type is a parameter.
\<close>

record 'v settings =
  wake_word :: "string option"
  stt_language :: 'v
  wake_listen_timeout_s :: 'v
  wake_phrase_time_limit_s :: 'v
  stt_backend :: 'v
  stt_microphone_index :: 'v
  sounddevice_input_index :: 'v

text \<open>The two environment variables the module reads; \<open>None\<close> is an unset variable.\<close>

record environ =
  YUI_WAKE_WORD_ALIASES :: "string option"
  YUI_WAKE_WORD_FUZZY :: "string option"

definition is_alias_delim :: "char \<Rightarrow> bool" where
  "is_alias_delim c = (c = CHR '','' \<or> c = CHR ''|'' \<or> c = CHR '';'')"

function re_split_aliases :: "string \<Rightarrow> string \<Rightarrow> string list" where
  \<comment> \<open>\<open>re.split(r"[,\|;]\s*", s)\<close>; the first argument is the piece being read.\<close>
  "re_split_aliases cur [] = [cur]"
| "re_split_aliases cur (c # cs) =
     (if is_alias_delim c then cur # re_split_aliases [] (dropWhile isspace cs)
      else re_split_aliases (cur @ [c]) cs)"
  by pat_completeness auto
termination
  by (relation "measure (\<lambda>(cur, s). length s)") (auto simp: less_Suc_eq_le length_dropWhile_le)

fun alias_loop :: "string list \<Rightarrow> string list \<Rightarrow> string list" where
  \<comment> \<open>The loop over the parts: each normalized part that is not empty is appended.\<close>
  "alias_loop [] aliases = aliases"
| "alias_loop (part # parts) aliases =
     (let p = normalize_text (Some part)
      in if p \<noteq> [] then alias_loop parts (aliases @ [p]) else alias_loop parts aliases)"

fun dedup_loop :: "string list \<Rightarrow> string list \<Rightarrow> string set \<Rightarrow> string list" where
  \<comment> \<open>The loop over \<open>[base, *aliases]\<close> with its accumulators \<open>out\<close> and \<open>seen\<close>.\<close>
  "dedup_loop [] out seen = out"
| "dedup_loop (w # ws) out seen =
     (if w = [] then dedup_loop ws out seen
      else if w \<in> seen then dedup_loop ws out seen
      else dedup_loop ws (out @ [w]) (insert w seen))"

definition wake_base :: "'v settings \<Rightarrow> string" where
  "wake_base s = normalize_text (Some (or_empty (wake_word s)))"

definition wake_aliases :: "environ \<Rightarrow> string list" where
  "wake_aliases env =
     (let env_aliases = strip (or_empty (YUI_WAKE_WORD_ALIASES env))
      in if env_aliases \<noteq> [] then alias_loop (re_split_aliases [] env_aliases) [] else [])"

definition wake_candidates :: "environ \<Rightarrow> 'v settings \<Rightarrow> string list" where
  "wake_candidates env s = dedup_loop (wake_base s # wake_aliases env) [] {}"

section \<open>The fuzzy matcher\<close>

function eq_len_loop :: "string \<Rightarrow> string \<Rightarrow> nat \<Rightarrow> nat \<Rightarrow> bool" where
  \<comment> \<open>\<open>for i in range(la)\<close> of the equal-length branch, from index \<open>i\<close> with \<open>diff\<close>.\<close>
  "eq_len_loop a b i diff =
     (if i < length a then
        (if a ! i \<noteq> b ! i then
           (if diff + 1 > 1 then False else eq_len_loop a b (i + 1) (diff + 1))
         else eq_len_loop a b (i + 1) diff)
      else True)"
  by pat_completeness auto
termination
  by (relation "measure (\<lambda>(a, b, i, diff). length a - i)") auto

function two_pointer_loop :: "string \<Rightarrow> string \<Rightarrow> nat \<Rightarrow> nat \<Rightarrow> nat \<Rightarrow> bool" where
  \<comment> \<open>\<open>while i < la and j < lb\<close>, with \<open>a\<close> the shorter string.\<close>
  "two_pointer_loop a b i j diff =
     (if i < length a \<and> j < length b then
        (if a ! i = b ! j then two_pointer_loop a b (i + 1) (j + 1) diff
         else if diff + 1 > 1 then False
         else two_pointer_loop a b i (j + 1) (diff + 1))
      else True)"
  by pat_completeness auto
termination
  by (relation "measure (\<lambda>(a, b, i, j, diff). length b - j)") auto

definition edit_distance_le1 :: "string option \<Rightarrow> string option \<Rightarrow> bool" where
  "edit_distance_le1 a0 b0 =
     (let a = or_empty a0; b = or_empty b0
      in if a = b then True
         else let la = length a; lb = length b
         in if 1 < \<bar>int la - int lb\<bar> then False
            else if la = lb then eq_len_loop a b 0 0
            else if la > lb then two_pointer_loop b a 0 0 0
            else two_pointer_loop a b 0 0 0)"

section \<open>Wake detection\<close>

record WakeResult =
  heard :: bool
  transcript :: "string option"

text \<open>
  The keyword arguments of the call of \<open>listen\<close>. The collaborator itself is not part
  of the module: it is a parameter, a function from the arguments and its own state
  to an optional transcript and the new state.
\<close>

record 'v listen_args =
  language :: 'v
  timeout_s :: 'v
  phrase_time_limit_s :: 'v
  backend :: 'v
  microphone_index :: 'v
  sounddevice_index :: 'v

type_synonym ('v, 'w) stt = "'v listen_args \<Rightarrow> 'w \<Rightarrow> string option \<times> 'w"

fun cand_loop :: "string \<Rightarrow> string list \<Rightarrow> bool" where
  \<comment> \<open>\<open>for cand in candidates\<close> for one word.\<close>
  "cand_loop word [] = False"
| "cand_loop word (cand # cands) =
     (if edit_distance_le1 (Some word) (Some cand) then True else cand_loop word cands)"

fun fuzzy_loop :: "string list \<Rightarrow> string list \<Rightarrow> bool" where
  \<comment> \<open>\<open>for word in words\<close>: True when the loop returns the result that was heard.\<close>
  "fuzzy_loop [] candidates = False"
| "fuzzy_loop (word # words) candidates =
     (if length word < 2 \<or> length word > 6 then fuzzy_loop words candidates
      else if cand_loop word candidates then True
      else fuzzy_loop words candidates)"

definition fuzzy_setting :: "environ \<Rightarrow> string" where
  \<comment> \<open>\<open>(os.getenv("YUI_WAKE_WORD_FUZZY", "1") or "1").strip()\<close>\<close>
  "fuzzy_setting env =
     strip (case YUI_WAKE_WORD_FUZZY env of None \<Rightarrow> ''1''
            | Some v \<Rightarrow> if v = [] then ''1'' else v)"

definition listen_kwargs :: "'v settings \<Rightarrow> 'v listen_args" where
  \<comment> \<open>The arguments \<open>wait_for_wake_word\<close> passes to \<open>listen\<close>.\<close>
  "listen_kwargs s =
     \<lparr>language = stt_language s,
      timeout_s = wake_listen_timeout_s s,
      phrase_time_limit_s = wake_phrase_time_limit_s s,
      backend = stt_backend s,
      microphone_index = stt_microphone_index s,
      sounddevice_index = sounddevice_input_index s\<rparr>"

definition wait_for_wake_word ::
  "environ \<Rightarrow> 'v settings \<Rightarrow> ('v, 'w) stt \<Rightarrow> 'w \<Rightarrow> WakeResult \<times> 'w" where
  "wait_for_wake_word env s listen w =
     (let candidates = wake_candidates env s
      in if candidates = [] then (\<lparr>heard = True, transcript = None\<rparr>, w)
         else
           let (tr, w') = listen (listen_kwargs s) w
           in if tr = None \<or> tr = Some [] then (\<lparr>heard = False, transcript = None\<rparr>, w')
              else
                let norm = normalize_text tr; words = split_ws norm
                in if list_ex (\<lambda>c. c \<in> set words \<or> substr_in c norm) candidates
                   then (\<lparr>heard = True, transcript = tr\<rparr>, w')
                   else
                     let fuzzy = fuzzy_setting env
                     in if fuzzy \<notin> {''0'', ''false'', ''False''} then
                          (if fuzzy_loop words candidates
                           then (\<lparr>heard = True, transcript = tr\<rparr>, w')
                           else (\<lparr>heard = False, transcript = tr\<rparr>, w'))
                        else (\<lparr>heard = False, transcript = tr\<rparr>, w'))"

section \<open>Stripping the wake word\<close>

text \<open>
  The pattern is \<open>\b(?:c1|...|cn)\b[:,]?\s*\<close> with the candidates escaped, so each
  alternative matches itself literally. The matcher reads the text left to right and
  knows the character before the current position, which \<open>\b\<close> looks at.
\<close>

definition is_word_opt :: "char option \<Rightarrow> bool" where
  "is_word_opt x = (case x of None \<Rightarrow> False | Some c \<Rightarrow> is_word_char c)"

definition word_boundary :: "char option \<Rightarrow> char option \<Rightarrow> bool" where
  \<comment> \<open>\<open>\b\<close> between the character before and the character after a position.\<close>
  "word_boundary prev nxt = (is_word_opt prev \<noteq> is_word_opt nxt)"

definition head_opt :: "string \<Rightarrow> char option" where
  "head_opt s = (case s of [] \<Rightarrow> None | c # _ \<Rightarrow> Some c)"

definition last_before :: "char option \<Rightarrow> string \<Rightarrow> char option" where
  "last_before prev s = (if s = [] then prev else Some (last s))"

definition alt_matches :: "char option \<Rightarrow> string \<Rightarrow> string \<Rightarrow> bool" where
  \<comment> \<open>The alternative \<open>c\<close> matches at the start of \<open>rest\<close> and \<open>\b\<close> holds after it.\<close>
  "alt_matches prev rest c =
     (prefix c rest \<and> word_boundary (last_before prev c) (head_opt (drop (length c) rest)))"

definition match_len :: "string list \<Rightarrow> char option \<Rightarrow> string \<Rightarrow> nat option" where
  \<comment> \<open>The length of the match of the pattern at the start of \<open>rest\<close>, if there is one.\<close>
  "match_len cands prev rest =
     (if \<not> word_boundary prev (head_opt rest) then None
      else case find (alt_matches prev rest) cands of
        None \<Rightarrow> None
      | Some c \<Rightarrow>
          let r1 = drop (length c) rest;
              p = (case r1 of [] \<Rightarrow> 0 | x # _ \<Rightarrow> if x = CHR '':'' \<or> x = CHR '','' then 1 else 0);
              r2 = drop p r1
          in Some (length c + p + length (takeWhile isspace r2)))"

function sub_wake :: "string list \<Rightarrow> char option \<Rightarrow> string \<Rightarrow> string" where
  \<comment> \<open>\<open>re.sub(pattern, "", t)\<close>: every match is deleted, the search going on after it.\<close>
  "sub_wake cands prev [] = []"
| "sub_wake cands prev (c # cs) =
     (case match_len cands prev (c # cs) of
        None \<Rightarrow> c # sub_wake cands (Some c) cs
      | Some n \<Rightarrow>
          if 0 < n then sub_wake cands (Some ((c # cs) ! (n - 1))) (drop n (c # cs))
          else c # sub_wake cands (Some c) cs)"
  by pat_completeness auto
termination
  by (relation "measure (\<lambda>(cands, prev, s). length s)") auto

definition strip_wake_word :: "environ \<Rightarrow> 'v settings \<Rightarrow> string option \<Rightarrow> string" where
  "strip_wake_word env s text =
     (let candidates = wake_candidates env s
      in if candidates = [] then normalize_text text
         else
           let candidates = sort_key (\<lambda>w. - int (length w)) candidates;
               wake = filter (\<lambda>w. w \<noteq> []) candidates;
               t = normalize_text text
           in strip (sub_wake wake None t))"

section \<open>Normal forms\<close>

text \<open>
  The shape of a normalized text: no whitespace at either end, every character its own
  lower case, and every whitespace character a single space followed by a character
  that is not whitespace.
\<close>

fun ok_spaces :: "string \<Rightarrow> bool" where
  "ok_spaces [] = True"
| "ok_spaces (c # cs) =
     ((isspace c \<longrightarrow> c = CHR '' '' \<and> (cs = [] \<or> \<not> isspace (hd cs))) \<and> ok_spaces cs)"

definition trimmed :: "string \<Rightarrow> bool" where
  "trimmed s = (s = [] \<or> (\<not> isspace (hd s) \<and> \<not> isspace (last s)))"

definition normal_form :: "string \<Rightarrow> bool" where
  "normal_form s = (trimmed s \<and> lower s = s \<and> ok_spaces s)"

section \<open>Edit distance\<close>

text \<open>
  The Levenshtein distance, by its usual recursion: the cheapest of deleting,
  inserting and substituting (or keeping) the first character.
\<close>

fun levenshtein :: "'a list \<Rightarrow> 'a list \<Rightarrow> nat" where
  "levenshtein [] ys = length ys"
| "levenshtein (x # xs) [] = Suc (length xs)"
| "levenshtein (x # xs) (y # ys) =
     min (min (levenshtein xs (y # ys) + 1) (levenshtein (x # xs) ys + 1))
         (levenshtein xs ys + (if x = y then 0 else 1))"

text \<open>The two loops of the matcher read on the remaining suffixes instead of indices.\<close>

fun eq_len_list :: "string \<Rightarrow> string \<Rightarrow> nat \<Rightarrow> bool" where
  "eq_len_list (x # xs) (y # ys) diff =
     (if x \<noteq> y then (if diff + 1 > 1 then False else eq_len_list xs ys (diff + 1))
      else eq_len_list xs ys diff)"
| "eq_len_list xs ys diff = True"

fun two_pointer_list :: "string \<Rightarrow> string \<Rightarrow> nat \<Rightarrow> bool" where
  "two_pointer_list (x # xs) (y # ys) diff =
     (if x = y then two_pointer_list xs ys diff
      else if diff + 1 > 1 then False
      else two_pointer_list (x # xs) ys (diff + 1))"
| "two_pointer_list xs ys diff = True"

section \<open>Candidates as the specification describes them\<close>

text \<open>
  Removing duplicates in first-seen order: an entry is kept and its later copies are
  dropped.
\<close>

function first_seen :: "'a list \<Rightarrow> 'a list" where
  "first_seen [] = []"
| "first_seen (x # xs) = x # first_seen (removeAll x xs)"
  by pat_completeness auto
termination
  by (relation "measure length") (auto simp: less_Suc_eq_le length_removeAll_less_eq)

text \<open>
  The aliases as the override declares them: its pieces, normalized, in source order
  (empty pieces included).
\<close>

definition declared_aliases :: "environ \<Rightarrow> string list" where
  "declared_aliases env =
     (let e = strip (or_empty (YUI_WAKE_WORD_ALIASES env))
      in if e \<noteq> [] then map (\<lambda>part. normalize_text (Some part)) (re_split_aliases [] e) else [])"

text \<open>A configuration and an environment to evaluate the functions on.\<close>

definition example_settings :: "unit settings" where
  "example_settings =
     \<lparr>wake_word = Some ''Yui'', stt_language = (), wake_listen_timeout_s = (),
      wake_phrase_time_limit_s = (), stt_backend = (), stt_microphone_index = (),
      sounddevice_input_index = ()\<rparr>"

definition example_environ :: environ where
  "example_environ =
     \<lparr>YUI_WAKE_WORD_ALIASES = Some '' Yuri, hey  yui;;YUI|yuki '', YUI_WAKE_WORD_FUZZY = None\<rparr>"

section \<open>The comparisons of the fuzzy pass, and inputs for evaluation\<close>

text \<open>
  The calls of the fuzzy matcher that the fuzzy pass makes, in order, as pairs of the
  token and the candidate compared: the two loops again, recording each comparison up
  to the one that returns.
\<close>

fun cand_tested :: "string \<Rightarrow> string list \<Rightarrow> (string \<times> string) list" where
  "cand_tested word [] = []"
| "cand_tested word (cand # cands) =
     (word, cand)
     # (if edit_distance_le1 (Some word) (Some cand) then [] else cand_tested word cands)"

fun fuzzy_tested :: "string list \<Rightarrow> string list \<Rightarrow> (string \<times> string) list" where
  "fuzzy_tested [] candidates = []"
| "fuzzy_tested (word # words) candidates =
     (if length word < 2 \<or> length word > 6 then fuzzy_tested words candidates
      else cand_tested word candidates
           @ (if cand_loop word candidates then [] else fuzzy_tested words candidates))"

definition fuzzy_hit :: "string \<times> string \<Rightarrow> bool" where
  "fuzzy_hit p = edit_distance_le1 (Some (fst p)) (Some (snd p))"

text \<open>
  A speech-to-text collaborator for evaluation: it answers every call with the same
  reply and keeps the log of the calls it received.
\<close>

definition logging_listen ::
  "string option \<Rightarrow> (unit, unit listen_args list) stt" where
  "logging_listen reply args log = (reply, log @ [args])"

definition blank_settings :: "unit settings" where
  "blank_settings = example_settings\<lparr>wake_word := Some ''  ''\<rparr>"

definition blank_environ :: environ where
  "blank_environ = \<lparr>YUI_WAKE_WORD_ALIASES = Some '' , ;  '', YUI_WAKE_WORD_FUZZY = None\<rparr>"

definition padded_zero_environ :: environ where
  "padded_zero_environ = \<lparr>YUI_WAKE_WORD_ALIASES = None, YUI_WAKE_WORD_FUZZY = Some '' 0''\<rparr>"

definition plain_environ :: environ where
  "plain_environ = \<lparr>YUI_WAKE_WORD_ALIASES = None, YUI_WAKE_WORD_FUZZY = None\<rparr>"

definition transcript_tokens :: "string \<Rightarrow> string list" where
  \<comment> \<open>\<open>words\<close>: the tokens of the normalized transcript.\<close>
  "transcript_tokens t = split_ws (normalize_text (Some t))"

section \<open>Occurrences of a candidate in a text\<close>




















section \<open>Properties\<close>

subsection \<open>Normalization is idempotent\<close>

lemma isspace_lower_char: "isspace (lower_char c) = isspace c"
  unfolding isspace_def lower_char_def Let_def by auto

lemma lower_char_idem: "lower_char (lower_char c) = lower_char c"
  unfolding lower_char_def Let_def by auto

lemma lower_char_space: "lower_char CHR '' '' = CHR '' ''"
  by (simp add: lower_char_def)

lemma isspace_space: "isspace CHR '' ''"
  by (simp add: isspace_def)

lemma dropWhile_head: "dropWhile P xs = [] \<or> \<not> P (hd (dropWhile P xs))"
  using hd_dropWhile by blast

lemma dropWhile_keeps_last:
  "xs \<noteq> [] \<Longrightarrow> \<not> P (last xs) \<Longrightarrow> dropWhile P xs \<noteq> [] \<and> last (dropWhile P xs) = last xs"
  by (induction xs) (auto split: if_splits)

lemma trimmed_strip: "trimmed (strip s)"
proof -
  let ?u = "dropWhile isspace s"
  let ?v = "dropWhile isspace (rev ?u)"
  show ?thesis
  proof (cases "?v = []")
    case True
    then show ?thesis by (simp add: trimmed_def strip_def)
  next
    case False
    have u: "?u \<noteq> []"
    proof
      assume a: "?u = []"
      have "?v = []" by (simp only: a rev.simps dropWhile.simps)
      with False show False by contradiction
    qed
    have hv: "\<not> isspace (hd ?v)" using False hd_dropWhile by blast
    have "\<not> isspace (hd ?u)" using u hd_dropWhile by blast
    then have "\<not> isspace (last (rev ?u))" using u by (simp add: last_rev)
    then have "last ?v = last (rev ?u)" using u dropWhile_keeps_last[of "rev ?u" isspace] by simp
    then have "\<not> isspace (last ?v)" using \<open>\<not> isspace (last (rev ?u))\<close> by simp
    then have "\<not> isspace (hd (rev ?v))" using False by (simp add: hd_rev)
    moreover have "\<not> isspace (last (rev ?v))" using hv False by (simp add: last_rev)
    ultimately show ?thesis by (simp add: trimmed_def strip_def)
  qed
qed

lemma strip_trimmed: "trimmed s \<Longrightarrow> strip s = s"
proof (cases "s = []")
  case True
  then show ?thesis by (simp add: strip_def)
next
  case False
  assume "trimmed s"
  with False have h: "\<not> isspace (hd s)" and l: "\<not> isspace (last s)" by (auto simp: trimmed_def)
  from False h have 1: "dropWhile isspace s = s" by (cases s) auto
  from False l have "\<not> isspace (hd (rev s))" by (simp add: hd_rev)
  with False have 2: "dropWhile isspace (rev s) = rev s" by (cases "rev s") auto
  show ?thesis by (simp add: strip_def 1 2)
qed

lemma trimmed_lower: "trimmed s \<Longrightarrow> trimmed (lower s)"
  by (auto simp: trimmed_def lower_def hd_map last_map isspace_lower_char)

lemma sub_spaces_Nil_iff: "sub_spaces s = [] \<longleftrightarrow> s = []"
  by (cases s) auto

lemma hd_sub_spaces: "s \<noteq> [] \<Longrightarrow> \<not> isspace (hd s) \<Longrightarrow> hd (sub_spaces s) = hd s"
  by (cases s) auto

lemma last_sub_spaces: "s \<noteq> [] \<Longrightarrow> \<not> isspace (last s) \<Longrightarrow> last (sub_spaces s) = last s"
proof (induction s rule: sub_spaces.induct)
  case 1
  then show ?case by simp
next
  case (2 c cs)
  show ?case
  proof (cases "isspace c")
    case True
    with "2.prems"(2) have cs: "cs \<noteq> []" by (cases cs) auto
    with "2.prems"(2) have l: "\<not> isspace (last cs)" by simp
    from dropWhile_keeps_last[of cs isspace] cs l
    have d: "dropWhile isspace cs \<noteq> []" "last (dropWhile isspace cs) = last cs" by auto
    with "2.IH"(1)[OF True] l have e: "last (sub_spaces (dropWhile isspace cs)) = last cs" by simp
    have ne: "sub_spaces (dropWhile isspace cs) \<noteq> []" using d(1) sub_spaces_Nil_iff by blast
    have "last (sub_spaces (c # cs)) = last (sub_spaces (dropWhile isspace cs))"
      using True ne by (simp del: dropWhile_eq_Nil_conv)
    with e cs show ?thesis by simp
  next
    case False
    show ?thesis
    proof (cases "cs = []")
      case True
      with False show ?thesis by simp
    next
      case cs: False
      with "2.prems"(2) have "\<not> isspace (last cs)" by simp
      with "2.IH"(2)[OF False cs] have "last (sub_spaces cs) = last cs" by simp
      with False cs show ?thesis by (simp add: sub_spaces_Nil_iff)
    qed
  qed
qed

lemma trimmed_sub_spaces: "trimmed s \<Longrightarrow> trimmed (sub_spaces s)"
  by (auto simp: trimmed_def sub_spaces_Nil_iff hd_sub_spaces last_sub_spaces)

lemma ok_spaces_sub_spaces: "ok_spaces (sub_spaces s)"
proof (induction s rule: sub_spaces.induct)
  case 1
  then show ?case by simp
next
  case (2 c cs)
  show ?case
  proof (cases "isspace c")
    case True
    let ?d = "dropWhile isspace cs"
    have "sub_spaces ?d = [] \<or> \<not> isspace (hd (sub_spaces ?d))"
    proof (cases "?d = []")
      case True
      then have "sub_spaces ?d = []" by (simp only: sub_spaces.simps)
      then show ?thesis by blast
    next
      case False
      then have "\<not> isspace (hd ?d)" using hd_dropWhile by blast
      with False have "hd (sub_spaces ?d) = hd ?d" by (rule hd_sub_spaces)
      with \<open>\<not> isspace (hd ?d)\<close> show ?thesis by simp
    qed
    with 2(1)[OF True] True show ?thesis by auto
  next
    case False
    with 2(2) show ?thesis by simp
  qed
qed

lemma sub_spaces_ok: "ok_spaces s \<Longrightarrow> sub_spaces s = s"
proof (induction s)
  case Nil
  then show ?case by simp
next
  case (Cons c cs)
  then have "isspace c \<Longrightarrow> dropWhile isspace cs = cs" by (cases cs) auto
  with Cons show ?case by auto
qed

lemma lower_sub_spaces: "lower (sub_spaces s) = sub_spaces (lower s)"
  by (induction s rule: sub_spaces.induct)
     (auto simp: lower_def isspace_lower_char lower_char_space dropWhile_map comp_def)

lemma lower_idem: "lower (lower s) = lower s"
  by (simp add: lower_def lower_char_idem)

lemma normal_form_normalize: "normal_form (normalize_text x)"
proof -
  let ?u = "strip (or_empty x)"
  have "trimmed (sub_spaces (lower ?u))"
    by (intro trimmed_sub_spaces trimmed_lower trimmed_strip)
  moreover have "lower (sub_spaces (lower ?u)) = sub_spaces (lower ?u)"
    by (simp add: lower_sub_spaces lower_idem)
  ultimately show ?thesis by (simp add: normal_form_def normalize_text_def ok_spaces_sub_spaces)
qed

lemma normalize_normal_form: "normal_form s \<Longrightarrow> normalize_text (Some s) = s"
  by (simp add: normal_form_def normalize_text_def or_empty_def strip_trimmed sub_spaces_ok)

text \<open>
  Claim C5. Normalization is idempotent: normalizing the result of a normalization,
  of any string or of the absent string, gives that result again.
\<close>

theorem normalize_text_idempotent:
  "normalize_text (Some (normalize_text x)) = normalize_text x"
  by (rule normalize_normal_form) (rule normal_form_normalize)

subsection \<open>The fuzzy matcher decides edit distance at most one\<close>

declare eq_len_loop.simps [simp del]
declare two_pointer_loop.simps [simp del]

lemma eq_len_loop_list:
  "length a = length b \<Longrightarrow> eq_len_loop a b i diff = eq_len_list (drop i a) (drop i b) diff"
proof (induction a b i diff rule: eq_len_loop.induct)
  case (1 a b i diff)
  show ?case
  proof (cases "i < length a")
    case True
    with "1.prems" have da: "drop i a = a ! i # drop (Suc i) a" and db: "drop i b = b ! i # drop (Suc i) b"
      by (simp_all add: Cons_nth_drop_Suc)
    show ?thesis
      using True "1.IH" "1.prems"
      by (subst eq_len_loop.simps) (simp add: da db)
  next
    case False
    then show ?thesis by (subst eq_len_loop.simps) simp
  qed
qed

lemma two_pointer_loop_list:
  "two_pointer_loop a b i j diff = two_pointer_list (drop i a) (drop j b) diff"
proof (induction a b i j diff rule: two_pointer_loop.induct)
  case (1 a b i j diff)
  show ?case
  proof (cases "i < length a \<and> j < length b")
    case True
    then have da: "drop i a = a ! i # drop (Suc i) a" and db: "drop j b = b ! j # drop (Suc j) b"
      by (simp_all add: Cons_nth_drop_Suc)
    show ?thesis
      using True "1.IH"
      by (subst two_pointer_loop.simps) (simp add: da db)
  next
    case False
    then have "drop i a = [] \<or> drop j b = []" by auto
    then have "two_pointer_list (drop i a) (drop j b) diff"
      by (cases "drop i a"; cases "drop j b") auto
    moreover have "two_pointer_loop a b i j diff"
      using False by (subst two_pointer_loop.simps) (simp only: if_False)
    ultimately show ?thesis by simp
  qed
qed

lemma levenshtein_zero: "levenshtein xs ys = 0 \<longleftrightarrow> xs = ys"
  by (induction xs ys rule: levenshtein.induct) auto

lemma levenshtein_length: "length xs - length ys \<le> levenshtein xs ys \<and> length ys - length xs \<le> levenshtein xs ys"
  by (induction xs ys rule: levenshtein.induct) auto

lemma levenshtein_Nil2: "levenshtein xs [] = length xs"
  by (cases xs) auto

lemma levenshtein_sym: "levenshtein xs ys = levenshtein ys xs"
  by (induction xs ys rule: levenshtein.induct) (auto simp: levenshtein_Nil2 min.commute)

lemma levenshtein_le1_Cons:
  "levenshtein (x # xs) (y # ys) \<le> 1 \<longleftrightarrow>
     xs = y # ys \<or> x # xs = ys \<or> (x = y \<and> levenshtein xs ys \<le> 1) \<or> (x \<noteq> y \<and> xs = ys)"
proof -
  have "levenshtein (x # xs) (y # ys) \<le> 1 \<longleftrightarrow>
      levenshtein xs (y # ys) = 0 \<or> levenshtein (x # xs) ys = 0
      \<or> (x = y \<and> levenshtein xs ys \<le> 1) \<or> (x \<noteq> y \<and> levenshtein xs ys = 0)"
    by (auto simp: min_le_iff_disj)
  then show ?thesis by (simp only: levenshtein_zero)
qed

lemma levenshtein_Cons_self: "levenshtein xs (x # xs) \<le> 1"
proof (cases xs)
  case Nil
  then show ?thesis by simp
next
  case (Cons a as)
  have "levenshtein (a # as) (a # as) = 0" by (simp only: levenshtein_zero)
  then have "levenshtein (a # as) (x # a # as) \<le> 1" by (simp add: min_le_iff_disj)
  with Cons show ?thesis by simp
qed

lemma eq_len_list_exact:
  "length xs = length ys \<Longrightarrow> 0 < diff \<Longrightarrow> eq_len_list xs ys diff \<longleftrightarrow> xs = ys"
  by (induction xs ys diff rule: eq_len_list.induct) auto

lemma eq_len_list_levenshtein:
  "length xs = length ys \<Longrightarrow> eq_len_list xs ys 0 \<longleftrightarrow> levenshtein xs ys \<le> 1"
proof (induction xs arbitrary: ys)
  case Nil
  then show ?case by simp
next
  case (Cons x xs)
  then obtain y ys' where ys: "ys = y # ys'" and len: "length xs = length ys'"
    by (cases ys) auto
  have n1: "xs \<noteq> y # ys'" and n2: "x # xs \<noteq> ys'" using len by auto
  show ?case
    unfolding ys levenshtein_le1_Cons
    using Cons.IH[OF len] eq_len_list_exact[OF len, of 1] n1 n2 by auto
qed

lemma two_pointer_list_exact:
  "length xs = length ys \<Longrightarrow> 0 < diff \<Longrightarrow> two_pointer_list xs ys diff \<longleftrightarrow> xs = ys"
  by (induction xs ys diff rule: two_pointer_list.induct) auto

lemma two_pointer_list_levenshtein:
  "length ys = Suc (length xs) \<Longrightarrow> two_pointer_list xs ys 0 \<longleftrightarrow> levenshtein xs ys \<le> 1"
proof (induction xs arbitrary: ys)
  case Nil
  then show ?case by (cases ys) auto
next
  case (Cons x xs)
  then obtain y ys' where ys: "ys = y # ys'" and len: "length ys' = Suc (length xs)"
    by (cases ys) auto
  have n1: "xs \<noteq> y # ys'" and n3: "xs \<noteq> ys'" using len by auto
  have len2: "length (x # xs) = length ys'" using len by simp
  show ?case
  proof (cases "x = y")
    case True
    have "x # xs = ys' \<Longrightarrow> levenshtein xs ys' \<le> 1"
      using levenshtein_Cons_self[of xs x] by auto
    then show ?thesis
      unfolding ys levenshtein_le1_Cons
      using True Cons.IH[OF len] n1 by auto
  next
    case False
    then show ?thesis
      unfolding ys levenshtein_le1_Cons
      using two_pointer_list_exact[OF len2, of 1] n1 n3 by auto
  qed
qed

text \<open>
  Claim C1. For every pair of strings (the absent string counting as the empty one) the
  fuzzy matcher returns true exactly when their Levenshtein distance is 0 or 1.
\<close>

theorem edit_distance_le1_levenshtein:
  "edit_distance_le1 a b \<longleftrightarrow> levenshtein (or_empty a) (or_empty b) \<le> 1"
proof -
  let ?a = "or_empty a" and ?b = "or_empty b"
  consider (eq) "?a = ?b"
    | (far) "?a \<noteq> ?b" "1 < \<bar>int (length ?a) - int (length ?b)\<bar>"
    | (same) "?a \<noteq> ?b" "length ?a = length ?b"
    | (longer) "?a \<noteq> ?b" "length ?a = Suc (length ?b)"
    | (shorter) "?a \<noteq> ?b" "length ?b = Suc (length ?a)"
    by linarith
  then show ?thesis
  proof cases
    case eq
    then have "levenshtein ?a ?b = 0" by (simp only: levenshtein_zero)
    with eq show ?thesis by (simp add: edit_distance_le1_def)
  next
    case far
    then have "1 < length ?a - length ?b \<or> 1 < length ?b - length ?a" by linarith
    with levenshtein_length[of ?a ?b] have "\<not> levenshtein ?a ?b \<le> 1" by linarith
    with far show ?thesis by (simp add: edit_distance_le1_def Let_def)
  next
    case same
    then show ?thesis
      by (simp add: edit_distance_le1_def Let_def eq_len_loop_list eq_len_list_levenshtein)
  next
    case longer
    then have "edit_distance_le1 a b = two_pointer_list ?b ?a 0"
      by (simp add: edit_distance_le1_def Let_def two_pointer_loop_list)
    also have "\<dots> \<longleftrightarrow> levenshtein ?b ?a \<le> 1"
      using longer(2) by (rule two_pointer_list_levenshtein)
    finally show ?thesis by (simp only: levenshtein_sym[of ?a ?b])
  next
    case shorter
    then have "edit_distance_le1 a b = two_pointer_list ?a ?b 0"
      by (simp add: edit_distance_le1_def Let_def two_pointer_loop_list)
    also have "\<dots> \<longleftrightarrow> levenshtein ?a ?b \<le> 1"
      using shorter(2) by (rule two_pointer_list_levenshtein)
    finally show ?thesis .
  qed
qed

subsection \<open>The candidate list\<close>

lemma set_first_seen: "set (first_seen xs) = set xs"
  by (induction xs rule: first_seen.induct) auto

lemma distinct_first_seen: "distinct (first_seen xs)"
  by (induction xs rule: first_seen.induct) (auto simp: set_first_seen)

lemma first_seen_Nil_iff: "first_seen xs = [] \<longleftrightarrow> xs = []"
  by (cases xs) auto

lemma alias_loop_filter:
  "alias_loop parts aliases =
     aliases @ filter (\<lambda>p. p \<noteq> []) (map (\<lambda>part. normalize_text (Some part)) parts)"
  by (induction parts arbitrary: aliases) (auto simp: Let_def)

lemma wake_aliases_declared: "wake_aliases env = filter (\<lambda>p. p \<noteq> []) (declared_aliases env)"
  by (simp add: wake_aliases_def declared_aliases_def Let_def alias_loop_filter)

lemma removeAll_filter: "removeAll x (filter P xs) = filter (\<lambda>v. P v \<and> v \<noteq> x) xs"
  by (induction xs) auto

lemma dedup_loop_first_seen:
  "seen = set out \<Longrightarrow>
   dedup_loop ws out seen = out @ first_seen (filter (\<lambda>w. w \<noteq> [] \<and> w \<notin> set out) ws)"
proof (induction ws arbitrary: out seen)
  case Nil
  then show ?case by simp
next
  case (Cons w ws)
  show ?case
  proof (cases "w = [] \<or> w \<in> set out")
    case True
    with Cons show ?thesis by auto
  next
    case False
    have "dedup_loop (w # ws) out seen = dedup_loop ws (out @ [w]) (insert w seen)"
      using False Cons.prems by simp
    also have "\<dots> = (out @ [w]) @ first_seen (filter (\<lambda>v. v \<noteq> [] \<and> v \<notin> set (out @ [w])) ws)"
      using Cons.prems by (intro Cons.IH) simp
    also have "filter (\<lambda>v. v \<noteq> [] \<and> v \<notin> set (out @ [w])) ws
        = removeAll w (filter (\<lambda>v. v \<noteq> [] \<and> v \<notin> set out) ws)"
      by (simp add: removeAll_filter conj_ac)
    finally show ?thesis using False by simp
  qed
qed

lemma wake_candidates_first_seen:
  "wake_candidates env s = first_seen (filter (\<lambda>w. w \<noteq> []) (wake_base s # declared_aliases env))"
proof -
  have "wake_candidates env s
      = first_seen (filter (\<lambda>w. w \<noteq> [] \<and> w \<notin> set []) (wake_base s # wake_aliases env))"
    unfolding wake_candidates_def by (subst dedup_loop_first_seen) simp_all
  also have "filter (\<lambda>w. w \<noteq> [] \<and> w \<notin> set []) (wake_base s # wake_aliases env)
      = filter (\<lambda>w. w \<noteq> []) (wake_base s # declared_aliases env)"
    by (simp add: wake_aliases_declared)
  finally show ?thesis .
qed

lemma wake_candidates_Nil_iff:
  "wake_candidates env s = [] \<longleftrightarrow> wake_base s = [] \<and> (\<forall>a\<in>set (declared_aliases env). a = [])"
  by (auto simp: wake_candidates_first_seen first_seen_Nil_iff filter_empty_conv)

text \<open>
  Claim C6. The candidate list has no duplicates and no empty entry; it is the
  normalized primary wake word followed by the normalized aliases in their declared
  order, empty entries dropped and duplicates removed in first-seen order. When the
  primary word is not empty it is the first candidate.
\<close>

theorem wake_candidates_ordered_distinct:
  "distinct (wake_candidates env s)
   \<and> [] \<notin> set (wake_candidates env s)
   \<and> wake_candidates env s
       = first_seen (filter (\<lambda>w. w \<noteq> []) (wake_base s # declared_aliases env))
   \<and> (wake_base s \<noteq> [] \<longrightarrow>
        wake_candidates env s
          = wake_base s
            # first_seen (filter (\<lambda>w. w \<noteq> [] \<and> w \<noteq> wake_base s) (declared_aliases env)))"
  by (simp add: wake_candidates_first_seen distinct_first_seen set_first_seen removeAll_filter)

theorem wake_candidates_ordered_distinct_witness:
  "wake_base example_settings \<noteq> []
   \<and> declared_aliases example_environ = [''yuri'', ''hey yui'', [], ''yui'', ''yuki'']
   \<and> wake_candidates example_environ example_settings = [''yui'', ''yuri'', ''hey yui'', ''yuki'']
   \<and> wake_candidates example_environ example_settings
       = wake_base example_settings
         # first_seen (filter (\<lambda>w. w \<noteq> [] \<and> w \<noteq> wake_base example_settings)
                        (declared_aliases example_environ))"
proof -
  have h: "wake_base example_settings \<noteq> []" by code_simp
  have d: "declared_aliases example_environ = [''yuri'', ''hey yui'', [], ''yui'', ''yuki'']"
    by code_simp
  have c: "wake_candidates example_environ example_settings = [''yui'', ''yuri'', ''hey yui'', ''yuki'']"
    by code_simp
  from wake_candidates_ordered_distinct[of example_environ example_settings] h d c
  show ?thesis by blast
qed

subsection \<open>Wake detection\<close>

lemma substr_in_sublist: "substr_in w t \<longleftrightarrow> sublist w t"
  by (induction t) (auto simp: sublist_Cons_right)

lemma cand_loop_iff: "cand_loop word cands \<longleftrightarrow> (\<exists>c\<in>set cands. edit_distance_le1 (Some word) (Some c))"
  by (induction cands) auto

lemma fuzzy_loop_iff:
  "fuzzy_loop words cands \<longleftrightarrow>
     (\<exists>word\<in>set words. 2 \<le> length word \<and> length word \<le> 6
        \<and> (\<exists>c\<in>set cands. edit_distance_le1 (Some word) (Some c)))"
  by (induction words) (auto simp: cand_loop_iff)

lemma cand_tested_miss: "\<not> cand_loop word cands \<Longrightarrow> cand_tested word cands = map (Pair word) cands"
  by (induction cands) (auto split: if_splits)

lemma cand_tested_subset: "set (cand_tested word cands) \<subseteq> {word} \<times> set cands"
  by (induction cands) auto

lemma cand_tested_hit:
  "cand_loop word cands \<Longrightarrow>
     cand_tested word cands \<noteq> [] \<and> fuzzy_hit (last (cand_tested word cands))
     \<and> (\<forall>p\<in>set (butlast (cand_tested word cands)). \<not> fuzzy_hit p)"
  by (induction cands) (auto simp: fuzzy_hit_def split: if_splits)

lemma cand_tested_miss_no_hit: "\<not> cand_loop word cands \<Longrightarrow> \<forall>p\<in>set (cand_tested word cands). \<not> fuzzy_hit p"
  by (auto simp: cand_tested_miss cand_loop_iff fuzzy_hit_def)

lemma fuzzy_tested_bounds:
  "(word, c) \<in> set (fuzzy_tested words cands) \<Longrightarrow>
     2 \<le> length word \<and> length word \<le> 6 \<and> word \<in> set words \<and> c \<in> set cands"
proof (induction words)
  case Nil
  then show ?case by simp
next
  case (Cons v vs)
  show ?case
  proof (cases "length v < 2 \<or> length v > 6")
    case True
    with Cons show ?thesis by auto
  next
    case False
    with Cons.prems have "(word, c) \<in> set (cand_tested v cands) \<or> (word, c) \<in> set (fuzzy_tested vs cands)"
      by (auto split: if_splits)
    then show ?thesis
    proof
      assume "(word, c) \<in> set (cand_tested v cands)"
      with cand_tested_subset[of v cands] have "word = v" "c \<in> set cands" by auto
      with False show ?thesis by auto
    next
      assume "(word, c) \<in> set (fuzzy_tested vs cands)"
      with Cons.IH show ?thesis by auto
    qed
  qed
qed

lemma fuzzy_tested_miss:
  "\<not> fuzzy_loop words cands \<Longrightarrow>
     set (fuzzy_tested words cands)
       = {word \<in> set words. 2 \<le> length word \<and> length word \<le> 6} \<times> set cands"
proof (induction words)
  case Nil
  then show ?case by simp
next
  case (Cons v vs)
  show ?case
  proof (cases "length v < 2 \<or> length v > 6")
    case True
    with Cons show ?thesis by auto
  next
    case False
    with Cons.prems have m: "\<not> cand_loop v cands" and r: "\<not> fuzzy_loop vs cands"
      by (auto split: if_splits)
    have "set (fuzzy_tested (v # vs) cands) = set (cand_tested v cands) \<union> set (fuzzy_tested vs cands)"
      using False m by simp
    also have "set (cand_tested v cands) = {v} \<times> set cands"
      using m by (auto simp: cand_tested_miss)
    also have "set (fuzzy_tested vs cands)
        = {word \<in> set vs. 2 \<le> length word \<and> length word \<le> 6} \<times> set cands"
      using r by (rule Cons.IH)
    finally show ?thesis using False by auto
  qed
qed

lemma fuzzy_tested_hit:
  "fuzzy_loop words cands \<Longrightarrow>
     fuzzy_tested words cands \<noteq> [] \<and> fuzzy_hit (last (fuzzy_tested words cands))
     \<and> (\<forall>p\<in>set (butlast (fuzzy_tested words cands)). \<not> fuzzy_hit p)"
proof (induction words)
  case Nil
  then show ?case by simp
next
  case (Cons v vs)
  show ?case
  proof (cases "length v < 2 \<or> length v > 6")
    case True
    with Cons show ?thesis by auto
  next
    case False
    show ?thesis
    proof (cases "cand_loop v cands")
      case True
      with False cand_tested_hit[OF True] show ?thesis by simp
    next
      case miss: False
      with False Cons.prems have "fuzzy_loop vs cands" by simp
      from Cons.IH[OF this] cand_tested_miss_no_hit[OF miss] False miss
      show ?thesis by (auto simp: butlast_append)
    qed
  qed
qed


lemma wait_for_wake_word_heard_transcript:
  assumes "wake_candidates env s \<noteq> []"
    and "listen (listen_kwargs s) w = (Some t, w')"
    and "t \<noteq> []"
  shows "wait_for_wake_word env s listen w =
     (\<lparr>heard =
         ((\<exists>c\<in>set (wake_candidates env s).
             c \<in> set (split_ws (normalize_text (Some t))) \<or> sublist c (normalize_text (Some t)))
          \<or> (fuzzy_setting env \<notin> {''0'', ''false'', ''False''}
              \<and> fuzzy_loop (split_ws (normalize_text (Some t))) (wake_candidates env s))),
       transcript = Some t\<rparr>, w')"
  using assms
  by (simp add: wait_for_wake_word_def Let_def list_ex_iff substr_in_sublist)

lemma fuzzy_setting_disabled_iff:
  "fuzzy_setting env \<in> {''0'', ''false'', ''False''} \<longleftrightarrow>
     (\<exists>v. YUI_WAKE_WORD_FUZZY env = Some v \<and> strip v \<in> {''0'', ''false'', ''False''})"
proof (cases "YUI_WAKE_WORD_FUZZY env")
  case None
  have "strip ''1'' = ''1''" by code_simp
  with None show ?thesis by (simp add: fuzzy_setting_def)
next
  case (Some v)
  have "strip ''1'' = ''1''" by code_simp
  moreover have "strip [] = []" by (simp add: strip_def)
  ultimately show ?thesis using Some by (cases "v = []") (simp_all add: fuzzy_setting_def)
qed

text \<open>
  Claim C3. When the primary wake word and every alias normalize to the empty string
  the result is heard, with no transcript, and the collaborator is not called: its
  state comes back as it was, whatever the collaborator is.
\<close>

theorem wait_for_wake_word_disabled:
  assumes "wake_base s = []"
    and "\<forall>a\<in>set (declared_aliases env). a = []"
  shows "wake_candidates env s = []
     \<and> wait_for_wake_word env s listen w = (\<lparr>heard = True, transcript = None\<rparr>, w)"
proof -
  from assms have "wake_candidates env s = []" by (simp add: wake_candidates_Nil_iff)
  then show ?thesis by (simp add: wait_for_wake_word_def)
qed

theorem wait_for_wake_word_disabled_witness:
  "wake_base blank_settings = []
   \<and> declared_aliases blank_environ = [[], [], []]
   \<and> wait_for_wake_word blank_environ blank_settings (logging_listen (Some ''yui'')) []
       = (\<lparr>heard = True, transcript = None\<rparr>, [])"
proof -
  have b: "wake_base blank_settings = []" by code_simp
  have d: "declared_aliases blank_environ = [[], [], []]" by code_simp
  then have a: "\<forall>a\<in>set (declared_aliases blank_environ). a = []" by simp
  from wait_for_wake_word_disabled[OF b a, of "logging_listen (Some ''yui'')" "[]"] b d
  show ?thesis by blast
qed

text \<open>
  Claim C4. With a candidate list that is not empty, an absent or empty transcript
  from the collaborator gives the result not heard, with no transcript.
\<close>

theorem wait_for_wake_word_silence:
  assumes "wake_candidates env s \<noteq> []"
    and "fst (listen (listen_kwargs s) w) = None \<or> fst (listen (listen_kwargs s) w) = Some []"
  shows "wait_for_wake_word env s listen w
     = (\<lparr>heard = False, transcript = None\<rparr>, snd (listen (listen_kwargs s) w))"
  using assms by (auto simp: wait_for_wake_word_def Let_def split: prod.splits)

theorem wait_for_wake_word_silence_witness:
  "wake_candidates plain_environ example_settings \<noteq> []
   \<and> fst (logging_listen None (listen_kwargs example_settings) []) = None
   \<and> fst (logging_listen (Some []) (listen_kwargs example_settings) []) = Some []
   \<and> fst (wait_for_wake_word plain_environ example_settings (logging_listen None) [])
       = \<lparr>heard = False, transcript = None\<rparr>
   \<and> fst (wait_for_wake_word plain_environ example_settings (logging_listen (Some [])) [])
       = \<lparr>heard = False, transcript = None\<rparr>"
proof -
  have c: "wake_candidates plain_environ example_settings \<noteq> []" by code_simp
  have n: "fst (logging_listen None (listen_kwargs example_settings) []) = None"
    by (simp add: logging_listen_def)
  have e: "fst (logging_listen (Some []) (listen_kwargs example_settings) []) = Some []"
    by (simp add: logging_listen_def)
  from wait_for_wake_word_silence[of plain_environ example_settings "logging_listen None" "[]"]
       wait_for_wake_word_silence[of plain_environ example_settings "logging_listen (Some [])" "[]"]
       c n e
  show ?thesis by simp
qed

text \<open>
  Claim C9. With a transcript and a candidate list that are not empty, the result is
  heard and carries the transcript as the collaborator returned it whenever a candidate
  is one of the whitespace-delimited tokens of the normalized transcript or occurs in
  the normalized transcript as a substring.
\<close>

theorem wait_for_wake_word_exact_or_substring:
  assumes "wake_candidates env s \<noteq> []"
    and "listen (listen_kwargs s) w = (Some t, w')"
    and "t \<noteq> []"
    and "c \<in> set (wake_candidates env s)"
    and "c \<in> set (split_ws (normalize_text (Some t))) \<or> sublist c (normalize_text (Some t))"
  shows "wait_for_wake_word env s listen w = (\<lparr>heard = True, transcript = Some t\<rparr>, w')"
proof -
  from assms(4,5) have "\<exists>c\<in>set (wake_candidates env s).
      c \<in> set (split_ws (normalize_text (Some t))) \<or> sublist c (normalize_text (Some t))"
    by blast
  with wait_for_wake_word_heard_transcript[of env s listen w t w'] assms(1-3)
  show ?thesis by simp
qed

theorem wait_for_wake_word_exact_or_substring_witness:
  "wake_candidates plain_environ example_settings \<noteq> []
   \<and> ''yui'' \<in> set (wake_candidates plain_environ example_settings)
   \<and> sublist ''yui'' (normalize_text (Some ''Oye YUI, apaga la luz''))
   \<and> wait_for_wake_word plain_environ example_settings
        (logging_listen (Some ''Oye YUI, apaga la luz'')) []
       = (\<lparr>heard = True, transcript = Some ''Oye YUI, apaga la luz''\<rparr>,
          [listen_kwargs example_settings])"
proof -
  have c: "wake_candidates plain_environ example_settings \<noteq> []" by code_simp
  have m: "''yui'' \<in> set (wake_candidates plain_environ example_settings)" by code_simp
  have l: "logging_listen (Some ''Oye YUI, apaga la luz'') (listen_kwargs example_settings) []
      = (Some ''Oye YUI, apaga la luz'', [listen_kwargs example_settings])"
    by (simp add: logging_listen_def)
  have "substr_in ''yui'' (normalize_text (Some ''Oye YUI, apaga la luz''))" by code_simp
  then have u: "sublist ''yui'' (normalize_text (Some ''Oye YUI, apaga la luz''))"
    by (simp only: substr_in_sublist)
  have t: "''Oye YUI, apaga la luz'' \<noteq> []" by simp
  from wait_for_wake_word_exact_or_substring[of plain_environ example_settings
         "logging_listen (Some ''Oye YUI, apaga la luz'')" "[]" "''Oye YUI, apaga la luz''"
         "[listen_kwargs example_settings]" "''yui''"] c l t m u
  show ?thesis by blast
qed


text \<open>
  Claim C7. In the fuzzy pass a token is given to the fuzzy matcher only if its length
  is at least 2 and at most 6; when no comparison succeeds, every such token is
  compared with every candidate; the first successful comparison ends the pass, and
  the result is then heard with the transcript as the collaborator returned it.
\<close>

theorem fuzzy_pass_token_bounds:
  assumes "wake_candidates env s \<noteq> []"
    and "listen (listen_kwargs s) w = (Some t, w')"
    and "t \<noteq> []"
    and "\<forall>c\<in>set (wake_candidates env s).
           c \<notin> set (transcript_tokens t) \<and> \<not> sublist c (normalize_text (Some t))"
    and "fuzzy_setting env \<notin> {''0'', ''false'', ''False''}"
  shows "wait_for_wake_word env s listen w
       = (\<lparr>heard = (\<exists>word\<in>set (transcript_tokens t). 2 \<le> length word \<and> length word \<le> 6
                      \<and> (\<exists>c\<in>set (wake_candidates env s).
                            edit_distance_le1 (Some word) (Some c))),
           transcript = Some t\<rparr>, w')
     \<and> (\<forall>p\<in>set (fuzzy_tested (transcript_tokens t) (wake_candidates env s)).
           2 \<le> length (fst p) \<and> length (fst p) \<le> 6)
     \<and> (\<not> fuzzy_loop (transcript_tokens t) (wake_candidates env s) \<longrightarrow>
           set (fuzzy_tested (transcript_tokens t) (wake_candidates env s))
             = {word \<in> set (transcript_tokens t). 2 \<le> length word \<and> length word \<le> 6}
               \<times> set (wake_candidates env s))
     \<and> (fuzzy_loop (transcript_tokens t) (wake_candidates env s) \<longrightarrow>
           fuzzy_tested (transcript_tokens t) (wake_candidates env s) \<noteq> []
           \<and> fuzzy_hit (last (fuzzy_tested (transcript_tokens t) (wake_candidates env s)))
           \<and> (\<forall>p\<in>set (butlast (fuzzy_tested (transcript_tokens t) (wake_candidates env s))).
                 \<not> fuzzy_hit p))"
proof -
  let ?words = "transcript_tokens t" and ?cands = "wake_candidates env s"
  have "wait_for_wake_word env s listen w
      = (\<lparr>heard = fuzzy_loop ?words ?cands, transcript = Some t\<rparr>, w')"
    using wait_for_wake_word_heard_transcript[of env s listen w t w'] assms
    by (simp add: transcript_tokens_def)
  then have 1: "wait_for_wake_word env s listen w
       = (\<lparr>heard = (\<exists>word\<in>set ?words. 2 \<le> length word \<and> length word \<le> 6
                      \<and> (\<exists>c\<in>set ?cands. edit_distance_le1 (Some word) (Some c))),
           transcript = Some t\<rparr>, w')"
    by (simp only: fuzzy_loop_iff)
  have 2: "\<forall>p\<in>set (fuzzy_tested ?words ?cands). 2 \<le> length (fst p) \<and> length (fst p) \<le> 6"
    using fuzzy_tested_bounds[of _ _ ?words ?cands] by auto
  from 1 2 fuzzy_tested_miss[of ?words ?cands] fuzzy_tested_hit[of ?words ?cands]
  show ?thesis by blast
qed

theorem fuzzy_pass_token_bounds_witness:
  "wait_for_wake_word plain_environ example_settings
      (logging_listen (Some ''a yu dime la horrible'')) []
     = (\<lparr>heard = True, transcript = Some ''a yu dime la horrible''\<rparr>,
        [listen_kwargs example_settings])
   \<and> fuzzy_tested (transcript_tokens ''a yu dime la horrible'')
        (wake_candidates plain_environ example_settings) = [(''yu'', ''yui'')]
   \<and> wait_for_wake_word plain_environ example_settings
        (logging_listen (Some ''a dime horrible'')) []
     = (\<lparr>heard = False, transcript = Some ''a dime horrible''\<rparr>,
        [listen_kwargs example_settings])
   \<and> set (fuzzy_tested (transcript_tokens ''a dime horrible'')
        (wake_candidates plain_environ example_settings)) = {''dime''} \<times> {''yui''}"
proof -
  let ?t = "''a yu dime la horrible''" and ?u = "''a dime horrible''"
  have c: "wake_candidates plain_environ example_settings \<noteq> []" by code_simp
  have cs: "wake_candidates plain_environ example_settings = [''yui'']" by code_simp
  have f: "fuzzy_setting plain_environ \<notin> {''0'', ''false'', ''False''}" by code_simp
  have lt: "logging_listen (Some ?t) (listen_kwargs example_settings) []
      = (Some ?t, [listen_kwargs example_settings])"
    by (simp add: logging_listen_def)
  have lu: "logging_listen (Some ?u) (listen_kwargs example_settings) []
      = (Some ?u, [listen_kwargs example_settings])"
    by (simp add: logging_listen_def)
  have "\<forall>c\<in>set (wake_candidates plain_environ example_settings).
      c \<notin> set (transcript_tokens ?t) \<and> \<not> substr_in c (normalize_text (Some ?t))"
    by code_simp
  then have xt: "\<forall>c\<in>set (wake_candidates plain_environ example_settings).
      c \<notin> set (transcript_tokens ?t) \<and> \<not> sublist c (normalize_text (Some ?t))"
    by (simp only: substr_in_sublist)
  have "\<forall>c\<in>set (wake_candidates plain_environ example_settings).
      c \<notin> set (transcript_tokens ?u) \<and> \<not> substr_in c (normalize_text (Some ?u))"
    by code_simp
  then have xu: "\<forall>c\<in>set (wake_candidates plain_environ example_settings).
      c \<notin> set (transcript_tokens ?u) \<and> \<not> sublist c (normalize_text (Some ?u))"
    by (simp only: substr_in_sublist)
  have tt: "transcript_tokens ?t = [''a'', ''yu'', ''dime'', ''la'', ''horrible'']" by code_simp
  have tu: "transcript_tokens ?u = [''a'', ''dime'', ''horrible'']" by code_simp
  have ft: "fuzzy_loop (transcript_tokens ?t) (wake_candidates plain_environ example_settings)"
    by code_simp
  have fu: "\<not> fuzzy_loop (transcript_tokens ?u) (wake_candidates plain_environ example_settings)"
    by code_simp
  have et: "fuzzy_tested (transcript_tokens ?t) (wake_candidates plain_environ example_settings)
      = [(''yu'', ''yui'')]"
    by code_simp
  have su: "{word \<in> set (transcript_tokens ?u). 2 \<le> length word \<and> length word \<le> 6} = {''dime''}"
    unfolding tu by auto
  note T = fuzzy_pass_token_bounds[of plain_environ example_settings
      "logging_listen (Some ?t)" "[]" ?t "[listen_kwargs example_settings]", OF c lt _ xt f]
  note U = fuzzy_pass_token_bounds[of plain_environ example_settings
      "logging_listen (Some ?u)" "[]" ?u "[listen_kwargs example_settings]", OF c lu _ xu f]
  have 1: "wait_for_wake_word plain_environ example_settings (logging_listen (Some ?t)) []
     = (\<lparr>heard = True, transcript = Some ?t\<rparr>, [listen_kwargs example_settings])"
    using T ft by (simp add: fuzzy_loop_iff)
  have 2: "wait_for_wake_word plain_environ example_settings (logging_listen (Some ?u)) []
     = (\<lparr>heard = False, transcript = Some ?u\<rparr>, [listen_kwargs example_settings])"
    using U fu by (simp add: fuzzy_loop_iff)
  have 3: "set (fuzzy_tested (transcript_tokens ?u) (wake_candidates plain_environ example_settings))
     = {''dime''} \<times> {''yui''}"
    using U fu su by (simp add: cs)
  from 1 2 3 et show ?thesis by blast
qed

text \<open>
  Claim C8, as the code has it. The fuzzy pass is skipped exactly when the override
  is set to a value that, with the whitespace at its ends removed, is \<open>0\<close>,
  \<open>false\<close> or \<open>False\<close>; unset, empty or any other value keeps it enabled.
\<close>

theorem fuzzy_pass_toggle:
  assumes "wake_candidates env s \<noteq> []"
    and "listen (listen_kwargs s) w = (Some t, w')"
    and "t \<noteq> []"
    and "\<forall>c\<in>set (wake_candidates env s).
           c \<notin> set (transcript_tokens t) \<and> \<not> sublist c (normalize_text (Some t))"
  shows "wait_for_wake_word env s listen w
       = (\<lparr>heard = (fuzzy_loop (transcript_tokens t) (wake_candidates env s)
                    \<and> \<not> (\<exists>v. YUI_WAKE_WORD_FUZZY env = Some v
                             \<and> strip v \<in> {''0'', ''false'', ''False''})),
           transcript = Some t\<rparr>, w')"
proof -
  have "wait_for_wake_word env s listen w
      = (\<lparr>heard = (fuzzy_setting env \<notin> {''0'', ''false'', ''False''}
                    \<and> fuzzy_loop (transcript_tokens t) (wake_candidates env s)),
          transcript = Some t\<rparr>, w')"
    using wait_for_wake_word_heard_transcript[of env s listen w t w'] assms
    by (simp add: transcript_tokens_def)
  then show ?thesis
    using fuzzy_setting_disabled_iff[of env] by (simp only: conj_commute)
qed

theorem fuzzy_pass_toggle_witness:
  "wait_for_wake_word padded_zero_environ example_settings
      (logging_listen (Some ''yu dime la hora'')) []
     = (\<lparr>heard = False, transcript = Some ''yu dime la hora''\<rparr>,
        [listen_kwargs example_settings])"
proof -
  let ?t = "''yu dime la hora''"
  have c: "wake_candidates padded_zero_environ example_settings \<noteq> []" by code_simp
  have l: "logging_listen (Some ?t) (listen_kwargs example_settings) []
      = (Some ?t, [listen_kwargs example_settings])"
    by (simp add: logging_listen_def)
  have "\<forall>c\<in>set (wake_candidates padded_zero_environ example_settings).
      c \<notin> set (transcript_tokens ?t) \<and> \<not> substr_in c (normalize_text (Some ?t))"
    by code_simp
  then have x: "\<forall>c\<in>set (wake_candidates padded_zero_environ example_settings).
      c \<notin> set (transcript_tokens ?t) \<and> \<not> sublist c (normalize_text (Some ?t))"
    by (simp only: substr_in_sublist)
  have v: "YUI_WAKE_WORD_FUZZY padded_zero_environ = Some '' 0''"
    by (simp add: padded_zero_environ_def)
  have z: "strip '' 0'' = ''0''" by code_simp
  from fuzzy_pass_toggle[of padded_zero_environ example_settings
      "logging_listen (Some ?t)" "[]" ?t "[listen_kwargs example_settings]", OF c l _ x] v z
  show ?thesis by simp
qed

text \<open>
  The override \<open>" 0"\<close> is none of the three values, and it disables the fuzzy pass:
  the transcript that is heard without an override is not heard with it.
\<close>

theorem fuzzy_pass_toggle_counterexample:
  "YUI_WAKE_WORD_FUZZY padded_zero_environ = Some '' 0''
   \<and> '' 0'' \<noteq> ''0'' \<and> '' 0'' \<noteq> ''false'' \<and> '' 0'' \<noteq> ''False''
   \<and> fst (wait_for_wake_word padded_zero_environ example_settings
            (logging_listen (Some ''yu dime la hora'')) [])
       = \<lparr>heard = False, transcript = Some ''yu dime la hora''\<rparr>
   \<and> fst (wait_for_wake_word plain_environ example_settings
            (logging_listen (Some ''yu dime la hora'')) [])
       = \<lparr>heard = True, transcript = Some ''yu dime la hora''\<rparr>"
  by code_simp

subsection \<open>The stripped text is normalized\<close>

lemma map_fixed_iff: "map f xs = xs \<longleftrightarrow> (\<forall>x\<in>set xs. f x = x)"
  by (induction xs) auto

lemma ok_spaces_append_left: "ok_spaces (xs @ ys) \<Longrightarrow> ok_spaces xs"
  by (induction xs) auto

lemma ok_spaces_drop: "ok_spaces xs \<Longrightarrow> ok_spaces (drop n xs)"
  by (induction xs arbitrary: n) (auto simp: drop_Cons split: nat.splits)

lemma ok_spaces_dropWhile: "ok_spaces xs \<Longrightarrow> ok_spaces (dropWhile P xs)"
  by (induction xs) auto

lemma strip_prefix_of_dropWhile:
  "dropWhile isspace s = strip s @ rev (takeWhile isspace (rev (dropWhile isspace s)))"
proof -
  let ?u = "dropWhile isspace s"
  show ?thesis
    unfolding strip_def
    using arg_cong[OF takeWhile_dropWhile_id[of isspace "rev ?u"], of rev]
    by (simp only: rev_append rev_rev_ident)
qed

lemma ok_spaces_strip: "ok_spaces s \<Longrightarrow> ok_spaces (strip s)"
proof -
  assume "ok_spaces s"
  then have "ok_spaces (dropWhile isspace s)" by (rule ok_spaces_dropWhile)
  then have "ok_spaces (strip s @ rev (takeWhile isspace (rev (dropWhile isspace s))))"
    by (simp only: strip_prefix_of_dropWhile[symmetric])
  then show ?thesis by (rule ok_spaces_append_left)
qed

lemma set_strip: "set (strip s) \<subseteq> set s"
proof -
  have "set (dropWhile isspace s)
      = set (strip s) \<union> set (rev (takeWhile isspace (rev (dropWhile isspace s))))"
    using arg_cong[OF strip_prefix_of_dropWhile[of s], of set] by (simp only: set_append)
  then have "set (strip s) \<subseteq> set (dropWhile isspace s)" by blast
  also have "\<dots> \<subseteq> set s" by (auto dest: set_dropWhileD)
  finally show ?thesis .
qed

lemma ok_spaces_nth:
  "ok_spaces s \<Longrightarrow> Suc i < length s \<Longrightarrow> isspace (s ! i) \<Longrightarrow> \<not> isspace (s ! Suc i)"
proof (induction s arbitrary: i)
  case Nil
  then show ?case by simp
next
  case (Cons c cs)
  show ?case
  proof (cases i)
    case 0
    with Cons.prems show ?thesis by (cases cs) auto
  next
    case (Suc j)
    with Cons.prems Cons.IH[of j] show ?thesis by auto
  qed
qed

lemma match_len_SomeD:
  assumes "match_len cands prev rest = Some n"
  obtains c p where "find (alt_matches prev rest) cands = Some c"
    and "word_boundary prev (head_opt rest)"
    and "p = (case drop (length c) rest of [] \<Rightarrow> 0
              | x # _ \<Rightarrow> if x = CHR '':'' \<or> x = CHR '','' then 1 else (0::nat))"
    and "n = length c + p + length (takeWhile isspace (drop p (drop (length c) rest)))"
proof (cases "find (alt_matches prev rest) cands")
  case None
  with assms show ?thesis by (simp add: match_len_def split: if_splits)
next
  case (Some c)
  from assms have wb: "word_boundary prev (head_opt rest)"
    by (simp add: match_len_def split: if_splits)
  with assms Some
  have "n = length c
      + (case drop (length c) rest of [] \<Rightarrow> 0
         | x # _ \<Rightarrow> if x = CHR '':'' \<or> x = CHR '','' then 1 else 0)
      + length (takeWhile isspace
          (drop (case drop (length c) rest of [] \<Rightarrow> 0
                 | x # _ \<Rightarrow> if x = CHR '':'' \<or> x = CHR '','' then 1 else 0)
             (drop (length c) rest)))"
    by (simp add: match_len_def Let_def del: drop_drop)
  with Some wb that show ?thesis by blast
qed

lemma match_len_rest:
  assumes "match_len cands prev rest = Some n"
  shows "drop n rest = [] \<or> \<not> isspace (hd (drop n rest))"
proof -
  from assms obtain c :: string and p where
    n: "n = length c + p + length (takeWhile isspace (drop p (drop (length c) rest)))"
    by (rule match_len_SomeD) blast
  define r2 where "r2 = drop p (drop (length c) rest)"
  from n have "n = length (takeWhile isspace r2) + (p + length c)"
    by (simp add: r2_def)
  then have "drop n rest = drop (length (takeWhile isspace r2)) r2"
    by (simp add: r2_def)
  also have "\<dots> = dropWhile isspace r2" by (simp add: dropWhile_eq_drop)
  finally show ?thesis using hd_dropWhile[of isspace r2] by auto
qed

lemma sub_wake_head:
  "rest = [] \<or> \<not> isspace (hd rest) \<Longrightarrow>
   sub_wake cands prev rest = [] \<or> \<not> isspace (hd (sub_wake cands prev rest))"
proof (induction cands prev rest rule: sub_wake.induct)
  case (1 cands prev)
  then show ?case by simp
next
  case (2 cands prev c cs)
  show ?case
  proof (cases "match_len cands prev (c # cs)")
    case None
    with "2.prems" show ?thesis by simp
  next
    case (Some n)
    show ?thesis
    proof (cases "0 < n")
      case True
      from "2.IH"(2)[OF Some True match_len_rest[OF Some]] Some True
      show ?thesis by simp
    next
      case False
      with Some "2.prems" show ?thesis by simp
    qed
  qed
qed

lemma ok_spaces_sub_wake: "ok_spaces rest \<Longrightarrow> ok_spaces (sub_wake cands prev rest)"
proof (induction cands prev rest rule: sub_wake.induct)
  case (1 cands prev)
  then show ?case by simp
next
  case (2 cands prev c cs)
  have keep: "ok_spaces (c # sub_wake cands (Some c) cs)"
    if ih: "ok_spaces cs \<Longrightarrow> ok_spaces (sub_wake cands (Some c) cs)"
  proof -
    from "2.prems" have cs: "ok_spaces cs" by simp
    have "isspace c \<Longrightarrow> sub_wake cands (Some c) cs = [] \<or> \<not> isspace (hd (sub_wake cands (Some c) cs))"
      using "2.prems" by (intro sub_wake_head) auto
    with "2.prems" ih[OF cs] show ?thesis by auto
  qed
  show ?case
  proof (cases "match_len cands prev (c # cs)")
    case None
    with keep[OF "2.IH"(1)[OF None]] show ?thesis by simp
  next
    case (Some n)
    show ?thesis
    proof (cases "0 < n")
      case True
      from "2.IH"(2)[OF Some True ok_spaces_drop[OF "2.prems"]] Some True
      show ?thesis by simp
    next
      case False
      with keep[OF "2.IH"(3)[OF Some False]] Some show ?thesis by simp
    qed
  qed
qed

lemma set_sub_wake: "set (sub_wake cands prev rest) \<subseteq> set rest"
proof (induction cands prev rest rule: sub_wake.induct)
  case (1 cands prev)
  then show ?case by simp
next
  case (2 cands prev c cs)
  show ?case
  proof (cases "match_len cands prev (c # cs)")
    case None
    with "2.IH"(1)[OF None] show ?thesis by auto
  next
    case (Some n)
    show ?thesis
    proof (cases "0 < n")
      case True
      from "2.IH"(2)[OF Some True] set_drop_subset[of n "c # cs"] Some True
      show ?thesis by auto
    next
      case False
      with "2.IH"(3)[OF Some False] Some show ?thesis by auto
    qed
  qed
qed

lemma normal_form_strip_sub_wake:
  assumes "normal_form t"
  shows "normal_form (strip (sub_wake cands prev t))"
proof -
  let ?r = "strip (sub_wake cands prev t)"
  from assms have low: "\<forall>c\<in>set t. lower_char c = c" and ok: "ok_spaces t"
    by (simp_all add: normal_form_def lower_def map_fixed_iff)
  have "set ?r \<subseteq> set t" using set_strip set_sub_wake by fast
  with low have "lower ?r = ?r" by (auto simp: lower_def map_fixed_iff)
  moreover have "ok_spaces ?r" using ok by (intro ok_spaces_strip ok_spaces_sub_wake)
  ultimately show ?thesis by (simp add: normal_form_def trimmed_strip)
qed

lemma normal_form_strip_wake_word: "normal_form (strip_wake_word env s text)"
  by (simp add: strip_wake_word_def Let_def normal_form_normalize normal_form_strip_sub_wake)

text \<open>
  Claim C10. The string returned by \<open>strip_wake_word\<close> is in normalized form:
  normalizing it gives it back, it has no whitespace at either end, it is its own
  lower case, and a whitespace character in it is never followed by another one.
\<close>

theorem strip_wake_word_normalized:
  "normalize_text (Some (strip_wake_word env s text)) = strip_wake_word env s text
   \<and> strip (strip_wake_word env s text) = strip_wake_word env s text
   \<and> lower (strip_wake_word env s text) = strip_wake_word env s text
   \<and> (Suc i < length (strip_wake_word env s text) \<longrightarrow>
        isspace (strip_wake_word env s text ! i) \<longrightarrow>
        \<not> isspace (strip_wake_word env s text ! Suc i))"
proof -
  have nf: "normal_form (strip_wake_word env s text)" by (rule normal_form_strip_wake_word)
  then have "strip (strip_wake_word env s text) = strip_wake_word env s text"
    by (simp add: normal_form_def strip_trimmed)
  moreover from nf have "lower (strip_wake_word env s text) = strip_wake_word env s text"
    by (simp add: normal_form_def)
  moreover from nf have "ok_spaces (strip_wake_word env s text)" by (simp add: normal_form_def)
  ultimately show ?thesis
    using normalize_normal_form[OF nf] ok_spaces_nth by blast
qed

theorem strip_wake_word_normalized_witness:
  "strip_wake_word example_environ example_settings (Some ''  Oye  HEY  Yui:  Dime   la HORA '')
     = ''oye dime la hora''
   \<and> normalize_text (Some (strip_wake_word example_environ example_settings
        (Some ''  Oye  HEY  Yui:  Dime   la HORA ''))) = ''oye dime la hora''
   \<and> Suc 3 < length (strip_wake_word example_environ example_settings
        (Some ''  Oye  HEY  Yui:  Dime   la HORA ''))
   \<and> isspace (strip_wake_word example_environ example_settings
        (Some ''  Oye  HEY  Yui:  Dime   la HORA '') ! 3)
   \<and> \<not> isspace (strip_wake_word example_environ example_settings
        (Some ''  Oye  HEY  Yui:  Dime   la HORA '') ! Suc 3)"
proof -
  let ?r = "strip_wake_word example_environ example_settings
      (Some ''  Oye  HEY  Yui:  Dime   la HORA '')"
  have v: "?r = ''oye dime la hora''" by code_simp
  have l: "Suc 3 < length ?r" unfolding v by simp
  have sp: "isspace (?r ! 3)" unfolding v by code_simp
  from strip_wake_word_normalized[of example_environ example_settings
      "Some ''  Oye  HEY  Yui:  Dime   la HORA ''" 3] v l sp
  show ?thesis by simp
qed

subsection \<open>Every occurrence between word boundaries is removed\<close>























end
